theory Spec2Isabelle
  imports Complex_Main
begin

section \<open>Tensors\<close>

text \<open>
  The data container of \<^verbatim>\<open>rigid_object_collection_data.py\<close> works on torch tensors.
  A tensor is modelled by its shape and its elements in row-major (contiguous) order.
  The element type is left open: every operation of the container only moves elements.
\<close>

datatype error = ZeroDivisionError | RuntimeError | ValueError | TypeError | IndexError

record 'a tensor =
  shape :: "nat list"
  elems :: "'a list"

definition numel :: "'a tensor \<Rightarrow> nat" where
  "numel t = prod_list (shape t)"

definition wf_tensor :: "'a tensor \<Rightarrow> bool" where
  "wf_tensor t \<longleftrightarrow> length (elems t) = numel t"

text \<open>The last dimension, the number of rows in front of it, and the r-th such row.\<close>

definition ncols :: "'a tensor \<Rightarrow> nat" where
  "ncols t = last (shape t)"

definition nrows :: "'a tensor \<Rightarrow> nat" where
  "nrows t = prod_list (butlast (shape t))"

definition row_at :: "nat \<Rightarrow> 'a list \<Rightarrow> nat \<Rightarrow> 'a list" where
  "row_at k xs r = take k (drop (r * k) xs)"

definition row :: "'a tensor \<Rightarrow> nat \<Rightarrow> 'a list" where
  "row t r = row_at (ncols t) (elems t) r"

text \<open>The tensor of shape \<open>sh\<close> whose rows are \<open>f 0\<close>, ..., \<open>f (n - 1)\<close>.\<close>

definition of_rows :: "nat list \<Rightarrow> nat \<Rightarrow> (nat \<Rightarrow> 'a list) \<Rightarrow> 'a tensor" where
  "of_rows sh n f = \<lparr>shape = sh, elems = concat (map f [0..<n])\<rparr>"

text \<open>
  \<^verbatim>\<open>data.reshape(a, b, -1)\<close>: torch infers the last size from the number of elements
  (\<^verbatim>\<open>infer_size\<close>). It raises a RuntimeError when a second size is \<^verbatim>\<open>-1\<close> ("only one
  dimension can be inferred"), when a size is below \<^verbatim>\<open>-1\<close> ("invalid shape dimension"),
  when the number of elements is not a multiple of \<^verbatim>\<open>a * b\<close> ("shape is invalid for
  input of size n"), and when \<^verbatim>\<open>a * b = 0\<close>: for an empty tensor the size \<^verbatim>\<open>-1\<close> "can be
  any value and is ambiguous", for any other the shape is invalid. The elements of a
  contiguous tensor stay in place.
\<close>

definition reshape_infer :: "'a tensor \<Rightarrow> int \<Rightarrow> int \<Rightarrow> error + 'a tensor" where
  "reshape_infer t a b =
     (if a = - 1 \<or> b = - 1 then Inl RuntimeError
      else if a < 0 \<or> b < 0 then Inl RuntimeError
      else
        let newsize = nat a * nat b; n = numel t in
        if n = newsize \<or> (0 < newsize \<and> n mod newsize = 0)
        then (if newsize = 0 then Inl RuntimeError
              else Inr \<lparr>shape = [nat a, nat b, n div newsize], elems = elems t\<rparr>)
        else Inl RuntimeError)"

text \<open>\<^verbatim>\<open>torch.einsum("ijk -> jik", t)\<close>: the first two axes of a 3-dimensional tensor are swapped.\<close>

definition swapped :: "nat \<Rightarrow> nat \<Rightarrow> nat \<Rightarrow> 'a list \<Rightarrow> 'a list" where
  "swapped a b c xs =
     concat (map (\<lambda>j. concat (map (\<lambda>i. row_at c xs (i * b + j)) [0..<a])) [0..<b])"

fun permute_jik :: "nat list \<Rightarrow> 'a list \<Rightarrow> error + 'a tensor" where
  "permute_jik [a, b, c] xs = Inr \<lparr>shape = [b, a, c], elems = swapped a b c xs\<rparr>"
| "permute_jik _ xs = Inl RuntimeError"

definition einsum_ijk_jik :: "'a tensor \<Rightarrow> error + 'a tensor" where
  "einsum_ijk_jik t = permute_jik (shape t) (elems t)"

text \<open>Indexing \<^verbatim>\<open>t[r]\<close> of a 2-dimensional and \<^verbatim>\<open>t[i, j]\<close> of a 3-dimensional tensor.\<close>

fun index_shape2 :: "nat list \<Rightarrow> 'a list \<Rightarrow> nat \<Rightarrow> error + 'a list" where
  "index_shape2 [n, k] xs r = (if r < n then Inr (row_at k xs r) else Inl IndexError)"
| "index_shape2 _ xs r = Inl IndexError"

definition index2 :: "'a tensor \<Rightarrow> nat \<Rightarrow> error + 'a list" where
  "index2 t r = index_shape2 (shape t) (elems t) r"

fun index_shape3 :: "nat list \<Rightarrow> 'a list \<Rightarrow> nat \<Rightarrow> nat \<Rightarrow> error + 'a list" where
  "index_shape3 [a, b, c] xs i j =
     (if i < a \<and> j < b then Inr (row_at c xs (i * b + j)) else Inl IndexError)"
| "index_shape3 _ xs i j = Inl IndexError"

definition index3 :: "'a tensor \<Rightarrow> nat \<Rightarrow> nat \<Rightarrow> error + 'a list" where
  "index3 t i j = index_shape3 (shape t) (elems t) i j"

section \<open>The data container\<close>

text \<open>
  Modelled from the spec: the timestamp of a \<^verbatim>\<open>TimestampedBuffer\<close>
  (\<^verbatim>\<open>omni.isaac.lab.utils.buffers\<close>, not among the sources). By section 3 of the spec it
  is either the sentinel of a buffer never computed, "-infinity-equivalent (a sentinel
  guaranteed to be less than any valid simulation time)", or the simulation time of the
  last computation. Simulation times are Python floats, idealised here as reals.
\<close>

datatype stamp = NegInf | At real

text \<open>The comparisons \<^verbatim>\<open>timestamp < t\<close> and \<^verbatim>\<open>timestamp <= t\<close> with a simulation time.\<close>

fun stamp_less :: "stamp \<Rightarrow> real \<Rightarrow> bool" where
  "stamp_less NegInf t = True"
| "stamp_less (At u) t = (u < t)"

fun stamp_le :: "stamp \<Rightarrow> real \<Rightarrow> bool" where
  "stamp_le NegInf t = True"
| "stamp_le (At u) t = (u \<le> t)"

text \<open>
  Modelled from the spec: the class \<^verbatim>\<open>TimestampedBuffer\<close>, which is not among the
  sources. Section 3 of the spec gives it the attributes \<^verbatim>\<open>data\<close> (a tensor, absent
  until the first computation) and \<^verbatim>\<open>timestamp\<close>.
\<close>

record 'a TimestampedBuffer =
  data :: "'a tensor option"
  timestamp :: stamp

text \<open>
  Modelled from the spec: the constructor \<^verbatim>\<open>TimestampedBuffer()\<close>, which is not among
  the sources. By section 3 of the spec a cache is created with the sentinel timestamp.
\<close>

definition TimestampedBuffer_init :: "'a TimestampedBuffer" where
  "TimestampedBuffer_init = \<lparr>data = None, timestamp = NegInf\<rparr>"

text \<open>
  The physics view is the external data source. It is read through \<^verbatim>\<open>count\<close>,
  \<^verbatim>\<open>get_transforms()\<close>, \<^verbatim>\<open>get_velocities()\<close> and \<^verbatim>\<open>get_accelerations()\<close>; a value of
  this record is what the view answers at one moment.
\<close>

record 'a RigidBodyView =
  count :: int
  transforms :: "'a tensor"
  velocities :: "'a tensor"
  accelerations :: "'a tensor"

datatype view_call = GetTransforms | GetVelocities | GetAccelerations

record 'a RigidObjectCollectionData =
  num_objects :: int
  num_instances :: int
  sim_timestamp :: real
  object_state_w_buf :: "'a TimestampedBuffer"
  object_acc_w_buf :: "'a TimestampedBuffer"

text \<open>
  \<^verbatim>\<open>__init__\<close>: \<^verbatim>\<open>count // num_objects\<close> is Python's floor division, which raises
  on a zero divisor. The gravity and forward constants are not modelled.
\<close>

definition RigidObjectCollectionData_init ::
  "'a RigidBodyView \<Rightarrow> int \<Rightarrow> error + 'a RigidObjectCollectionData" where
  "RigidObjectCollectionData_init root_physx_view n =
     (if n = 0 then Inl ZeroDivisionError
      else Inr \<lparr>num_objects = n,
                num_instances = count root_physx_view div n,
                sim_timestamp = 0,
                object_state_w_buf = TimestampedBuffer_init,
                object_acc_w_buf = TimestampedBuffer_init\<rparr>)"

definition update :: "real \<Rightarrow> 'a RigidObjectCollectionData \<Rightarrow> 'a RigidObjectCollectionData" where
  "update dt s = s\<lparr>sim_timestamp := sim_timestamp s + dt\<rparr>"

text \<open>\<^verbatim>\<open>_view_to_data_order\<close>: reshape to (num_objects, num_instances, -1), then swap the first two axes.\<close>

definition view_to_data_order ::
  "'b RigidObjectCollectionData \<Rightarrow> 'a tensor \<Rightarrow> error + 'a tensor" where
  "view_to_data_order s t =
     (case reshape_infer t (num_objects s) (num_instances s) of
        Inl e \<Rightarrow> Inl e
      | Inr r \<Rightarrow> einsum_ijk_jik r)"

subsection \<open>Slices along the last axis\<close>

text \<open>
  \<^verbatim>\<open>t[..., a:b]\<close> with constants \<open>a \<le> b\<close>: Python slicing clips at the end of the axis.
  A tensor without axes cannot be sliced.
\<close>

definition slice_last :: "nat \<Rightarrow> nat \<Rightarrow> 'a tensor \<Rightarrow> error + 'a tensor" where
  "slice_last a b t =
     (if shape t = [] then Inl IndexError
      else Inr (of_rows (butlast (shape t) @ [min b (ncols t) - min a (ncols t)]) (nrows t)
                  (\<lambda>r. take (b - a) (drop a (row t r)))))"

text \<open>
  \<^verbatim>\<open>t[..., a:b] = v\<close>: the value replaces the slice of every row. The container only
  assigns a value that has the shape of the slice, so broadcasting is not modelled and any
  other shape is rejected.
\<close>

definition set_slice_last :: "nat \<Rightarrow> nat \<Rightarrow> 'a tensor \<Rightarrow> 'a tensor \<Rightarrow> error + 'a tensor" where
  "set_slice_last a b t v =
     (if shape t = [] then Inl IndexError
      else if shape v \<noteq> butlast (shape t) @ [min b (ncols t) - min a (ncols t)]
      then Inl RuntimeError
      else Inr (of_rows (shape t) (nrows t)
                  (\<lambda>r. take a (row t r) @ row v r @ drop b (row t r))))"

text \<open>\<^verbatim>\<open>torch.cat((p, v), dim=-1)\<close>: all sizes but the last must agree.\<close>

definition cat_last :: "'a tensor \<Rightarrow> 'a tensor \<Rightarrow> error + 'a tensor" where
  "cat_last p v =
     (if shape p = [] \<or> shape v = [] then Inl RuntimeError
      else if butlast (shape p) \<noteq> butlast (shape v) then Inl RuntimeError
      else Inr (of_rows (butlast (shape p) @ [ncols p + ncols v]) (nrows p)
                  (\<lambda>r. row p r @ row v r)))"

text \<open>\<^verbatim>\<open>row.roll(1)\<close>: the last entry of a row moves to the front.\<close>

definition roll1 :: "'a list \<Rightarrow> 'a list" where
  "roll1 xs = (if xs = [] then [] else last xs # butlast xs)"

text \<open>
  Modelled from the spec: \<^verbatim>\<open>convert_quat(quat, to="wxyz")\<close> of
  \<^verbatim>\<open>omni.isaac.lab.utils.math\<close>, which is not among the sources. Section 4.1 of the spec
  describes it as the conversion "between quaternion component orderings": the view's
  (x, y, z, w) becomes (w, x, y, z), that is, every row is rolled by one place. A last axis
  that does not hold the four components of a quaternion is a shape violation (section 7
  of the spec) and raises.
\<close>

definition convert_quat_wxyz :: "'a tensor \<Rightarrow> error + 'a tensor" where
  "convert_quat_wxyz q =
     (if shape q = [] \<or> ncols q \<noteq> 4 then Inl ValueError
      else Inr (of_rows (shape q) (nrows q) (\<lambda>r. roll1 (row q r))))"

subsection \<open>Lazy properties\<close>

text \<open>
  A read of a property returns the calls it made to the physics view, its outcome (the
  value or the exception raised) and the container afterwards. The writes of a refresh
  come after its last operation that can raise, so a read that raises leaves the
  container as it was.
\<close>

record ('a, 'v) read_result =
  calls :: "view_call list"
  outcome :: "error + 'v"
  after :: "'a RigidObjectCollectionData"

text \<open>Lines 124-125 of the source: the pose in data order, with the quaternion converted.\<close>

definition read_pose :: "'a RigidObjectCollectionData \<Rightarrow> 'a RigidBodyView \<Rightarrow> error + 'a tensor" where
  "read_pose s v =
     (case view_to_data_order s (transforms v) of
        Inl e \<Rightarrow> Inl e
      | Inr pose \<Rightarrow>
          (case slice_last 3 7 pose of
             Inl e \<Rightarrow> Inl e
           | Inr xyzw \<Rightarrow>
               (case convert_quat_wxyz xyzw of
                  Inl e \<Rightarrow> Inl e
                | Inr wxyz \<Rightarrow> set_slice_last 3 7 pose wxyz)))"

text \<open>Lines 124-128: what a refresh of the state reads from the view and computes.\<close>

definition compute_object_state ::
  "'a RigidObjectCollectionData \<Rightarrow> 'a RigidBodyView \<Rightarrow> view_call list \<times> (error + 'a tensor)" where
  "compute_object_state s v =
     (case read_pose s v of
        Inl e \<Rightarrow> ([GetTransforms], Inl e)
      | Inr pose \<Rightarrow>
          (case view_to_data_order s (velocities v) of
             Inl e \<Rightarrow> ([GetTransforms, GetVelocities], Inl e)
           | Inr velocity \<Rightarrow> ([GetTransforms, GetVelocities], cat_last pose velocity)))"

text \<open>The body of the \<^verbatim>\<open>if\<close> of \<^verbatim>\<open>object_state_w\<close>: compute, then set data and timestamp.\<close>

definition refresh_object_state ::
  "'a RigidObjectCollectionData \<Rightarrow> 'a RigidBodyView \<Rightarrow> ('a, 'a tensor option) read_result" where
  "refresh_object_state s v =
     (case compute_object_state s v of
        (cs, Inl e) \<Rightarrow> \<lparr>calls = cs, outcome = Inl e, after = s\<rparr>
      | (cs, Inr d) \<Rightarrow>
          \<lparr>calls = cs, outcome = Inr (Some d),
           after = s\<lparr>object_state_w_buf :=
                      \<lparr>data = Some d, timestamp = At (sim_timestamp s)\<rparr>\<rparr>\<rparr>)"

definition object_state_w ::
  "'a RigidObjectCollectionData \<Rightarrow> 'a RigidBodyView \<Rightarrow> ('a, 'a tensor option) read_result" where
  "object_state_w s v =
     (if stamp_less (timestamp (object_state_w_buf s)) (sim_timestamp s)
      then refresh_object_state s v
      else \<lparr>calls = [], outcome = Inr (data (object_state_w_buf s)), after = s\<rparr>)"

text \<open>Line 140: what a refresh of the acceleration reads from the view.\<close>

definition compute_object_acc ::
  "'a RigidObjectCollectionData \<Rightarrow> 'a RigidBodyView \<Rightarrow> view_call list \<times> (error + 'a tensor)" where
  "compute_object_acc s v = ([GetAccelerations], view_to_data_order s (accelerations v))"

definition refresh_object_acc ::
  "'a RigidObjectCollectionData \<Rightarrow> 'a RigidBodyView \<Rightarrow> ('a, 'a tensor option) read_result" where
  "refresh_object_acc s v =
     (case compute_object_acc s v of
        (cs, Inl e) \<Rightarrow> \<lparr>calls = cs, outcome = Inl e, after = s\<rparr>
      | (cs, Inr d) \<Rightarrow>
          \<lparr>calls = cs, outcome = Inr (Some d),
           after = s\<lparr>object_acc_w_buf :=
                      \<lparr>data = Some d, timestamp = At (sim_timestamp s)\<rparr>\<rparr>\<rparr>)"

definition object_acc_w ::
  "'a RigidObjectCollectionData \<Rightarrow> 'a RigidBodyView \<Rightarrow> ('a, 'a tensor option) read_result" where
  "object_acc_w s v =
     (if stamp_less (timestamp (object_acc_w_buf s)) (sim_timestamp s)
      then refresh_object_acc s v
      else \<lparr>calls = [], outcome = Inr (data (object_acc_w_buf s)), after = s\<rparr>)"

text \<open>
  The derived properties slice the value of a cached one. Slicing \<^verbatim>\<open>None\<close> (a buffer
  never written) raises a TypeError.
\<close>

definition sliced ::
  "nat \<Rightarrow> nat \<Rightarrow> ('a, 'a tensor option) read_result \<Rightarrow> ('a, 'a tensor) read_result" where
  "sliced a b r =
     \<lparr>calls = calls r,
      outcome = (case outcome r of
                   Inl e \<Rightarrow> Inl e
                 | Inr None \<Rightarrow> Inl TypeError
                 | Inr (Some d) \<Rightarrow> slice_last a b d),
      after = after r\<rparr>"

definition object_pos_w where "object_pos_w s v = sliced 0 3 (object_state_w s v)"
definition object_quat_w where "object_quat_w s v = sliced 3 7 (object_state_w s v)"
definition object_vel_w where "object_vel_w s v = sliced 7 13 (object_state_w s v)"
definition object_lin_vel_w where "object_lin_vel_w s v = sliced 7 10 (object_state_w s v)"
definition object_ang_vel_w where "object_ang_vel_w s v = sliced 10 13 (object_state_w s v)"
definition object_lin_acc_w where "object_lin_acc_w s v = sliced 0 3 (object_acc_w s v)"
definition object_ang_acc_w where "object_ang_acc_w s v = sliced 3 6 (object_acc_w s v)"

subsection \<open>Reachable containers\<close>

text \<open>
  A container is constructed once; afterwards the simulation calls \<^verbatim>\<open>update\<close> with a
  positive time step and consumers read properties, while the view changes at will.
\<close>

inductive reachable :: "'a RigidObjectCollectionData \<Rightarrow> bool" where
  constructed: "RigidObjectCollectionData_init v n = Inr s \<Longrightarrow> reachable s"
| updated: "reachable s \<Longrightarrow> 0 < dt \<Longrightarrow> reachable (update dt s)"
| read_state: "reachable s \<Longrightarrow> reachable (after (object_state_w s v))"
| read_acc: "reachable s \<Longrightarrow> reachable (after (object_acc_w s v))"


text \<open>
  A view of \<open>n\<close> bodies that honours the layout of the physics engine: \<open>n\<close> rows of 7
  pose components (position, then the quaternion as x, y, z, w), and \<open>n\<close> rows of 6
  components for velocities and accelerations.
\<close>

definition view_ok :: "'a RigidBodyView \<Rightarrow> bool" where
  "view_ok v \<longleftrightarrow>
     0 \<le> count v \<and>
     shape (transforms v) = [nat (count v), 7] \<and> wf_tensor (transforms v) \<and>
     shape (velocities v) = [nat (count v), 6] \<and> wf_tensor (velocities v) \<and>
     shape (accelerations v) = [nat (count v), 6] \<and> wf_tensor (accelerations v)"

text \<open>A test view of \<open>n\<close> bodies whose entries are all different.\<close>

definition test_view :: "nat \<Rightarrow> int \<Rightarrow> int RigidBodyView" where
  "test_view n x =
     \<lparr>count = int n,
      transforms = \<lparr>shape = [n, 7], elems = map (\<lambda>i. x + int i) [0..<n * 7]\<rparr>,
      velocities = \<lparr>shape = [n, 6], elems = map (\<lambda>i. x + 100 + int i) [0..<n * 6]\<rparr>,
      accelerations = \<lparr>shape = [n, 6], elems = map (\<lambda>i. x + 200 + int i) [0..<n * 6]\<rparr>\<rparr>"

definition test_data :: "nat \<Rightarrow> int \<Rightarrow> int RigidObjectCollectionData" where
  "test_data n k =
     \<lparr>num_objects = k, num_instances = int n div k, sim_timestamp = 0,
      object_state_w_buf = TimestampedBuffer_init,
      object_acc_w_buf = TimestampedBuffer_init\<rparr>"

text \<open>
  The properties that slice \<^verbatim>\<open>object_state_w\<close>, and the number of times a sequence of
  their reads (each with the view as it is then) writes the state cache. A refresh stamps
  the cache with a time that its old stamp was below, so every write changes the buffer.
\<close>

datatype state_prop = ObjectPosW | ObjectQuatW | ObjectVelW | ObjectLinVelW | ObjectAngVelW

fun read_state_prop ::
  "state_prop \<Rightarrow> 'a RigidObjectCollectionData \<Rightarrow> 'a RigidBodyView \<Rightarrow> ('a, 'a tensor) read_result" where
  "read_state_prop ObjectPosW s v = object_pos_w s v"
| "read_state_prop ObjectQuatW s v = object_quat_w s v"
| "read_state_prop ObjectVelW s v = object_vel_w s v"
| "read_state_prop ObjectLinVelW s v = object_lin_vel_w s v"
| "read_state_prop ObjectAngVelW s v = object_ang_vel_w s v"

fun state_refreshes ::
  "'a RigidObjectCollectionData \<Rightarrow> (state_prop \<times> 'a RigidBodyView) list \<Rightarrow> nat" where
  "state_refreshes s [] = 0"
| "state_refreshes s ((p, v) # rest) =
     (if object_state_w_buf (after (read_state_prop p s v)) \<noteq> object_state_w_buf s then 1 else 0)
     + state_refreshes (after (read_state_prop p s v)) rest"

text \<open>Concatenation of several tensors along the last axis, from left to right.\<close>

fun concat_last :: "'a tensor list \<Rightarrow> error + 'a tensor" where
  "concat_last [] = Inl RuntimeError"
| "concat_last [t] = Inr t"
| "concat_last (t # u # ts) =
     (case cat_last t u of Inl e \<Rightarrow> Inl e | Inr tu \<Rightarrow> concat_last (tu # ts))"

text \<open>The invariant of the caches: no cache is stamped with a time ahead of the simulation.\<close>

definition cache_inv :: "'a RigidObjectCollectionData \<Rightarrow> bool" where
  "cache_inv s \<longleftrightarrow>
     stamp_le (timestamp (object_state_w_buf s)) (sim_timestamp s) \<and>
     stamp_le (timestamp (object_acc_w_buf s)) (sim_timestamp s)"

section \<open>Rows of a tensor\<close>

lemma length_row_at: "(Suc r) * k \<le> length xs \<Longrightarrow> length (row_at k xs r) = k"
  by (simp add: row_at_def)

lemma length_concat_rows:
  "(\<And>r. r < n \<Longrightarrow> length (f r) = k) \<Longrightarrow> length (concat (map f [0..<n])) = n * k"
  by (induction n) simp_all

lemma row_at_concat:
  assumes len: "\<And>r. r < n \<Longrightarrow> length (f r) = k" and r: "r < n"
  shows "row_at k (concat (map f [0..<n])) r = f r"
  using assms
proof (induction n)
  case 0
  then show ?case by simp
next
  case (Suc n)
  have la: "length (concat (map f [0..<n])) = n * k"
    using Suc.prems(1) by (simp add: length_concat_rows)
  show ?case
  proof (cases "r < n")
    case True
    then have ih: "row_at k (concat (map f [0..<n])) r = f r"
      using Suc.IH Suc.prems(1) by simp
    from True have "Suc r \<le> n" by simp
    then have "Suc r * k \<le> n * k" by (rule mult_le_mono1)
    then have "r * k + k \<le> n * k" by simp
    then show ?thesis using ih la by (simp add: row_at_def)
  next
    case False
    with Suc.prems(2) have "r = n" by simp
    then show ?thesis using la Suc.prems(1) by (simp add: row_at_def)
  qed
qed

lemma row_at_nested:
  assumes "j < m"
  shows "row_at k (row_at (m * k) xs i) j = row_at k xs (i * m + j)"
proof -
  from assms have "Suc j \<le> m" by simp
  then have "Suc j * k \<le> m * k" by (rule mult_le_mono1)
  then have "k \<le> m * k - j * k" by simp
  then have m: "min k (m * k - j * k) = k" by simp
  have e: "j * k + i * (m * k) = (i * m + j) * k" by (simp add: algebra_simps)
  have "row_at k (row_at (m * k) xs i) j = take k (drop (j * k + i * (m * k)) xs)"
    using m by (simp add: row_at_def drop_take)
  then show ?thesis unfolding e by (simp add: row_at_def)
qed

lemma row_in_bounds:
  assumes "i < a" "j < b" "length xs = a * b * c"
  shows "Suc (i * b + j) * c \<le> length xs"
proof -
  from assms(2) have "i * b + j < i * b + b" by simp
  also have "\<dots> = Suc i * b" by simp
  also from assms(1) have "\<dots> \<le> a * b" by (intro mult_le_mono1) simp
  finally have "Suc (i * b + j) \<le> a * b" by simp
  then have "Suc (i * b + j) * c \<le> a * b * c" by (rule mult_le_mono1)
  with assms(3) show ?thesis by simp
qed

lemma length_row_swapped:
  assumes "i < a" "j < b" "length xs = a * b * c"
  shows "length (row_at c xs (i * b + j)) = c"
  using row_in_bounds[OF assms] by (rule length_row_at)

lemma length_swapped_inner:
  assumes "length xs = a * b * c" "j < b"
  shows "length (concat (map (\<lambda>i. row_at c xs (i * b + j)) [0..<a])) = a * c"
  by (rule length_concat_rows) (simp add: length_row_swapped assms)

lemma length_swapped:
  assumes "length xs = a * b * c"
  shows "length (swapped a b c xs) = b * (a * c)"
  unfolding swapped_def
  by (rule length_concat_rows) (simp add: length_swapped_inner assms)

lemma row_at_swapped:
  assumes len: "length xs = a * b * c" and i: "i < a" and j: "j < b"
  shows "row_at c (swapped a b c xs) (j * a + i) = row_at c xs (i * b + j)"
proof -
  let ?G = "\<lambda>j. concat (map (\<lambda>i. row_at c xs (i * b + j)) [0..<a])"
  have "row_at c (swapped a b c xs) (j * a + i) = row_at c (row_at (a * c) (swapped a b c xs) j) i"
    using i by (simp add: row_at_nested)
  also have "row_at (a * c) (swapped a b c xs) j = ?G j"
    unfolding swapped_def using j
    by (intro row_at_concat) (simp_all add: length_swapped_inner len)
  also have "row_at c (?G j) i = row_at c xs (i * b + j)"
    using i j by (intro row_at_concat) (simp_all add: length_row_swapped len)
  finally show ?thesis .
qed

lemma view_to_data_order_eq:
  assumes wf: "wf_tensor t" and sh: "shape t = [ni * no, k]"
    and pos: "0 < ni" "0 < no"
    and dims: "num_objects s = int no" "num_instances s = int ni"
  shows "view_to_data_order s t = Inr \<lparr>shape = [ni, no, k], elems = swapped no ni k (elems t)\<rparr>"
proof -
  have n: "numel t = no * ni * k" using sh by (simp add: numel_def ac_simps)
  have "0 < no * ni" using pos by simp
  then have "reshape_infer t (int no) (int ni) = Inr \<lparr>shape = [no, ni, k], elems = elems t\<rparr>"
    using n by (simp add: reshape_infer_def Let_def)
  then show ?thesis
    by (simp add: view_to_data_order_def dims einsum_ijk_jik_def swapped_def)
qed

section \<open>The reorder operation\<close>

text \<open>
  C1 (amended). For at least one instance and one object, every buffer of shape
  (num_instances * num_objects, k) is reordered without error to a buffer of shape
  (num_instances, num_objects, k) whose entry [i, j] is the flat row
  j * num_instances + i of the input.
\<close>

theorem view_to_data_order_object_major:
  assumes wf: "wf_tensor t" and sh: "shape t = [ni * no, k]"
    and pos: "0 < ni" "0 < no"
    and dims: "num_objects s = int no" "num_instances s = int ni"
  shows "\<exists>r. view_to_data_order s t = Inr r \<and> shape r = [ni, no, k] \<and> wf_tensor r \<and>
           (\<forall>i<ni. \<forall>j<no. index3 r i j = Inr (row t (j * ni + i)) \<and>
                             index2 t (j * ni + i) = Inr (row t (j * ni + i)))"
proof -
  let ?r = "\<lparr>shape = [ni, no, k], elems = swapped no ni k (elems t)\<rparr>"
  have len: "length (elems t) = no * ni * k"
    using wf sh by (simp add: wf_tensor_def numel_def ac_simps)
  have eq: "view_to_data_order s t = Inr ?r"
    using assms by (rule view_to_data_order_eq)
  have wfr: "wf_tensor ?r"
    by (simp add: wf_tensor_def numel_def length_swapped len)
  have rows: "index3 ?r i j = Inr (row t (j * ni + i)) \<and>
              index2 t (j * ni + i) = Inr (row t (j * ni + i))" if "i < ni" "j < no" for i j
  proof -
    have "row_at k (swapped no ni k (elems t)) (i * no + j) = row_at k (elems t) (j * ni + i)"
      using len that by (simp add: row_at_swapped)
    moreover have "j * ni + i < ni * no"
    proof -
      from that(1) have "j * ni + i < Suc j * ni" by simp
      also from that(2) have "\<dots> \<le> no * ni" by (intro mult_le_mono1) simp
      finally show ?thesis by (simp add: ac_simps)
    qed
    ultimately show ?thesis
      using that by (simp add: index3_def index2_def sh row_def ncols_def)
  qed
  show ?thesis
    using eq wfr rows by (intro exI[of _ ?r]) simp
qed

theorem view_to_data_order_object_major_witness:
  "wf_tensor \<lparr>shape = [2 * 3, 1], elems = [10, 11, 12, 13, 14, 15 :: int]\<rparr> \<and>
   (\<exists>r. view_to_data_order
          \<lparr>num_objects = 3, num_instances = 2, sim_timestamp = 0,
           object_state_w_buf = (TimestampedBuffer_init :: int TimestampedBuffer),
           object_acc_w_buf = TimestampedBuffer_init\<rparr>
          \<lparr>shape = [2 * 3, 1], elems = [10, 11, 12, 13, 14, 15 :: int]\<rparr> = Inr r \<and>
        shape r = [2, 3, 1] \<and> index3 r 1 2 = Inr [15])"
proof -
  let ?t = "\<lparr>shape = [2 * 3, 1], elems = [10, 11, 12, 13, 14, 15 :: int]\<rparr>"
  let ?s = "\<lparr>num_objects = 3, num_instances = 2, sim_timestamp = 0,
             object_state_w_buf = (TimestampedBuffer_init :: int TimestampedBuffer),
             object_acc_w_buf = TimestampedBuffer_init\<rparr>"
  have wf: "wf_tensor ?t" by (simp add: wf_tensor_def numel_def)
  have "\<exists>r. view_to_data_order ?s ?t = Inr r \<and> shape r = [2, 3, 1] \<and> wf_tensor r \<and>
          (\<forall>i<2. \<forall>j<3. index3 r i j = Inr (row ?t (j * 2 + i)) \<and>
                          index2 ?t (j * 2 + i) = Inr (row ?t (j * 2 + i)))"
    using view_to_data_order_object_major [of ?t 2 3 1 ?s] wf by simp
  then obtain r where r: "view_to_data_order ?s ?t = Inr r" "shape r = [2, 3, 1]"
    and rows: "\<forall>i<2. \<forall>j<3. index3 r i j = Inr (row ?t (j * 2 + i))" by blast
  from rows have "index3 r 1 2 = Inr (row ?t (2 * 2 + 1))" by simp
  also have "row ?t (2 * 2 + 1) = [15]" by (simp add: row_def row_at_def ncols_def)
  finally show ?thesis using wf r by blast
qed

text \<open>
  Without instances (here a view of 2 bodies for 3 objects, so that
  \<^verbatim>\<open>2 // 3 = 0\<close>) the buffer of shape (0 * 3, 1) is not reordered: the reshape raises.
\<close>

theorem view_to_data_order_no_instances:
  "view_to_data_order
     \<lparr>num_objects = 3, num_instances = 2 div 3, sim_timestamp = 0,
      object_state_w_buf = (TimestampedBuffer_init :: int TimestampedBuffer),
      object_acc_w_buf = TimestampedBuffer_init\<rparr>
     \<lparr>shape = [0 * 3, 1], elems = ([] :: int list)\<rparr> = Inl RuntimeError"
  by (simp add: view_to_data_order_def reshape_infer_def numel_def)



section \<open>Simulation time\<close>



lemma init_test_data: "RigidObjectCollectionData_init (test_view 2 0) 2 = Inr (test_data 2 2)"
  by (simp add: RigidObjectCollectionData_init_def test_view_def test_data_def)

lemma reachable_test_data: "reachable (test_data 2 2)"
  using init_test_data by (rule reachable.constructed)



section \<open>The timestamped caches\<close>





lemma after_refresh_object_state:
  "after (refresh_object_state s v) =
     (case outcome (refresh_object_state s v) of
        Inl e \<Rightarrow> s
      | Inr d \<Rightarrow> s\<lparr>object_state_w_buf := \<lparr>data = d, timestamp = At (sim_timestamp s)\<rparr>\<rparr>)"
  by (simp add: refresh_object_state_def split: sum.splits prod.splits)

lemma after_refresh_object_acc:
  "after (refresh_object_acc s v) =
     (case outcome (refresh_object_acc s v) of
        Inl e \<Rightarrow> s
      | Inr d \<Rightarrow> s\<lparr>object_acc_w_buf := \<lparr>data = d, timestamp = At (sim_timestamp s)\<rparr>\<rparr>)"
  by (simp add: refresh_object_acc_def split: sum.splits prod.splits)

lemma after_object_state_w:
  "after (object_state_w s v) =
     (if stamp_less (timestamp (object_state_w_buf s)) (sim_timestamp s)
      then (case outcome (object_state_w s v) of
              Inl e \<Rightarrow> s
            | Inr d \<Rightarrow> s\<lparr>object_state_w_buf := \<lparr>data = d, timestamp = At (sim_timestamp s)\<rparr>\<rparr>)
      else s)"
  by (simp add: object_state_w_def after_refresh_object_state)

lemma after_object_acc_w:
  "after (object_acc_w s v) =
     (if stamp_less (timestamp (object_acc_w_buf s)) (sim_timestamp s)
      then (case outcome (object_acc_w s v) of
              Inl e \<Rightarrow> s
            | Inr d \<Rightarrow> s\<lparr>object_acc_w_buf := \<lparr>data = d, timestamp = At (sim_timestamp s)\<rparr>\<rparr>)
      else s)"
  by (simp add: object_acc_w_def after_refresh_object_acc)

lemma stamp_le_mono: "stamp_le ts t \<Longrightarrow> t \<le> u \<Longrightarrow> stamp_le ts u"
  by (cases ts) simp_all




lemma cache_inv_init: "RigidObjectCollectionData_init v n = Inr s \<Longrightarrow> cache_inv s"
  by (auto simp: RigidObjectCollectionData_init_def cache_inv_def TimestampedBuffer_init_def
      split: if_splits)

lemma cache_inv_update: "cache_inv s \<Longrightarrow> 0 < dt \<Longrightarrow> cache_inv (update dt s)"
  by (auto simp: cache_inv_def update_def intro: stamp_le_mono)

lemma cache_inv_object_state_w: "cache_inv s \<Longrightarrow> cache_inv (after (object_state_w s v))"
  by (auto simp: cache_inv_def after_object_state_w split: sum.splits)

lemma cache_inv_object_acc_w: "cache_inv s \<Longrightarrow> cache_inv (after (object_acc_w s v))"
  by (auto simp: cache_inv_def after_object_acc_w split: sum.splits)

lemma reachable_cache_inv: "reachable s \<Longrightarrow> cache_inv s"
proof (induction rule: reachable.induct)
  case (constructed v n s)
  then show ?case by (rule cache_inv_init)
next
  case (updated s dt)
  then show ?case by (simp add: cache_inv_update)
next
  case (read_state s v)
  then show ?case by (simp add: cache_inv_object_state_w)
next
  case (read_acc s v)
  then show ?case by (simp add: cache_inv_object_acc_w)
qed

text \<open>
  C6. In every state reachable by updates with positive time step and reads, the timestamp
  of each cache is at most the simulation timestamp; a read that refreshes its cache (the
  cache is stale and the read does not raise) stamps it with exactly the current simulation
  timestamp, any other read leaves the stamp alone, and no read changes the simulation
  timestamp.
\<close>

theorem cache_timestamp_at_most_sim_timestamp:
  assumes "reachable s"
  shows "stamp_le (timestamp (object_state_w_buf s)) (sim_timestamp s) \<and>
         stamp_le (timestamp (object_acc_w_buf s)) (sim_timestamp s) \<and>
         timestamp (object_state_w_buf (after (object_state_w s v))) =
           (if stamp_less (timestamp (object_state_w_buf s)) (sim_timestamp s) \<and>
               \<not> isl (outcome (object_state_w s v))
            then At (sim_timestamp s) else timestamp (object_state_w_buf s)) \<and>
         timestamp (object_acc_w_buf (after (object_acc_w s v))) =
           (if stamp_less (timestamp (object_acc_w_buf s)) (sim_timestamp s) \<and>
               \<not> isl (outcome (object_acc_w s v))
            then At (sim_timestamp s) else timestamp (object_acc_w_buf s)) \<and>
         sim_timestamp (after (object_state_w s v)) = sim_timestamp s \<and>
         sim_timestamp (after (object_acc_w s v)) = sim_timestamp s"
proof -
  from assms have "cache_inv s" by (rule reachable_cache_inv)
  then have inv: "stamp_le (timestamp (object_state_w_buf s)) (sim_timestamp s)"
    "stamp_le (timestamp (object_acc_w_buf s)) (sim_timestamp s)"
    by (simp_all add: cache_inv_def)
  have st: "timestamp (object_state_w_buf (after (object_state_w s v))) =
           (if stamp_less (timestamp (object_state_w_buf s)) (sim_timestamp s) \<and>
               \<not> isl (outcome (object_state_w s v))
            then At (sim_timestamp s) else timestamp (object_state_w_buf s))"
    by (simp add: after_object_state_w split: sum.splits)
  have ac: "timestamp (object_acc_w_buf (after (object_acc_w s v))) =
           (if stamp_less (timestamp (object_acc_w_buf s)) (sim_timestamp s) \<and>
               \<not> isl (outcome (object_acc_w s v))
            then At (sim_timestamp s) else timestamp (object_acc_w_buf s))"
    by (simp add: after_object_acc_w split: sum.splits)
  have sim: "sim_timestamp (after (object_state_w s v)) = sim_timestamp s"
    "sim_timestamp (after (object_acc_w s v)) = sim_timestamp s"
    by (simp_all add: after_object_state_w after_object_acc_w split: sum.splits)
  from inv st ac sim show ?thesis by blast
qed

theorem cache_timestamp_at_most_sim_timestamp_witness:
  "reachable (update (1/2) (after (object_state_w (test_data 2 2) (test_view 2 0)))) \<and>
   stamp_le (At 0) (1/2) \<and>
   timestamp (object_state_w_buf (after (object_state_w
      (update (1/2) (after (object_state_w (test_data 2 2) (test_view 2 0)))) (test_view 2 5)))) = At (1/2)"
proof -
  let ?s = "update (1/2) (after (object_state_w (test_data 2 2) (test_view 2 0)))"
  have r: "reachable ?s"
    by (intro reachable.updated reachable.read_state reachable_test_data) simp
  have e: "timestamp (object_state_w_buf ?s) = At 0" "sim_timestamp ?s = 1/2"
    "\<not> isl (outcome (object_state_w ?s (test_view 2 5)))"
    by code_simp+
  show ?thesis
    using r cache_timestamp_at_most_sim_timestamp [OF r, of "test_view 2 5"] e by simp
qed





text \<open>
  C3 (amended). In every state, when a read of \<^verbatim>\<open>object_state_w\<close> or of
  \<^verbatim>\<open>object_acc_w\<close> returns, a second read of the same quantity with no update in
  between makes no call to the view, returns the same value and leaves the container as
  it is, whatever the view holds by then; the first read calls the view for one
  recomputation when its cache is stale and not at all when it is fresh.
\<close>

theorem second_read_hits_cache:
  "(\<not> isl (outcome (object_state_w s v)) \<longrightarrow>
      object_state_w (after (object_state_w s v)) v' =
        \<lparr>calls = [], outcome = outcome (object_state_w s v), after = after (object_state_w s v)\<rparr> \<and>
      calls (object_state_w s v) =
        (if stamp_less (timestamp (object_state_w_buf s)) (sim_timestamp s)
         then [GetTransforms, GetVelocities] else [])) \<and>
   (\<not> isl (outcome (object_acc_w s v)) \<longrightarrow>
      object_acc_w (after (object_acc_w s v)) v' =
        \<lparr>calls = [], outcome = outcome (object_acc_w s v), after = after (object_acc_w s v)\<rparr> \<and>
      calls (object_acc_w s v) =
        (if stamp_less (timestamp (object_acc_w_buf s)) (sim_timestamp s)
         then [GetAccelerations] else []))"
  by (auto simp: object_state_w_def object_acc_w_def refresh_object_state_def
      refresh_object_acc_def compute_object_state_def compute_object_acc_def
      split: sum.splits prod.splits)

theorem second_read_hits_cache_witness:
  "\<not> isl (outcome (object_state_w (test_data 2 2) (test_view 2 0))) \<and>
   object_state_w (after (object_state_w (test_data 2 2) (test_view 2 0))) (test_view 2 5) =
     \<lparr>calls = [], outcome = outcome (object_state_w (test_data 2 2) (test_view 2 0)),
      after = after (object_state_w (test_data 2 2) (test_view 2 0))\<rparr> \<and>
   calls (object_state_w (test_data 2 2) (test_view 2 0)) = [GetTransforms, GetVelocities] \<and>
   \<not> isl (outcome (object_acc_w (test_data 2 2) (test_view 2 0))) \<and>
   object_acc_w (after (object_acc_w (test_data 2 2) (test_view 2 0))) (test_view 2 5) =
     \<lparr>calls = [], outcome = outcome (object_acc_w (test_data 2 2) (test_view 2 0)),
      after = after (object_acc_w (test_data 2 2) (test_view 2 0))\<rparr> \<and>
   calls (object_acc_w (test_data 2 2) (test_view 2 0)) = [GetAccelerations]"
proof -
  have e: "\<not> isl (outcome (object_state_w (test_data 2 2) (test_view 2 0)))"
    "\<not> isl (outcome (object_acc_w (test_data 2 2) (test_view 2 0)))"
    "stamp_less (timestamp (object_state_w_buf (test_data 2 2))) (sim_timestamp (test_data 2 2))"
    "stamp_less (timestamp (object_acc_w_buf (test_data 2 2))) (sim_timestamp (test_data 2 2))"
    by code_simp+
  show ?thesis
    using e second_read_hits_cache [of "test_data 2 2" "test_view 2 0" "test_view 2 5"]
    by simp
qed

text \<open>
  The state after one read is reachable and its cache is fresh: two further reads return
  the same value and make no call to the view at all, not one.
\<close>

theorem third_read_makes_no_call:
  "reachable (after (object_acc_w (test_data 2 2) (test_view 2 0))) \<and>
   outcome (object_acc_w (after (object_acc_w (test_data 2 2) (test_view 2 0))) (test_view 2 0)) =
   outcome (object_acc_w (after (object_acc_w (after (object_acc_w (test_data 2 2) (test_view 2 0)))
              (test_view 2 0))) (test_view 2 0)) \<and>
   calls (object_acc_w (after (object_acc_w (test_data 2 2) (test_view 2 0))) (test_view 2 0)) @
   calls (object_acc_w (after (object_acc_w (after (object_acc_w (test_data 2 2) (test_view 2 0)))
              (test_view 2 0))) (test_view 2 0)) = []"
proof -
  have r: "reachable (after (object_acc_w (test_data 2 2) (test_view 2 0)))"
    by (intro reachable.read_acc reachable_test_data)
  have "outcome (object_acc_w (after (object_acc_w (test_data 2 2) (test_view 2 0))) (test_view 2 0)) =
   outcome (object_acc_w (after (object_acc_w (after (object_acc_w (test_data 2 2) (test_view 2 0)))
              (test_view 2 0))) (test_view 2 0))" by code_simp
  moreover have "calls (object_acc_w (after (object_acc_w (test_data 2 2) (test_view 2 0))) (test_view 2 0)) @
   calls (object_acc_w (after (object_acc_w (after (object_acc_w (test_data 2 2) (test_view 2 0)))
              (test_view 2 0))) (test_view 2 0)) = []" by code_simp
  ultimately show ?thesis using r by blast
qed






section \<open>Tensors by rows\<close>

lemma concat_rows_take: "concat (map (row_at k xs) [0..<n]) = take (n * k) xs"
proof (induction n)
  case 0
  then show ?case by simp
next
  case (Suc n)
  have "take (n * k) xs @ take k (drop (n * k) xs) = take (n * k + k) xs"
    by (simp add: take_add)
  with Suc show ?case by (simp add: row_at_def add.commute)
qed

lemma numel_split: "shape t \<noteq> [] \<Longrightarrow> numel t = nrows t * ncols t"
proof -
  assume "shape t \<noteq> []"
  then have "shape t = butlast (shape t) @ [last (shape t)]" by simp
  then have "prod_list (shape t) = prod_list (butlast (shape t) @ [last (shape t)])" by simp
  then show ?thesis by (simp add: numel_def nrows_def ncols_def)
qed

lemma length_row:
  assumes "wf_tensor t" "shape t \<noteq> []" "r < nrows t"
  shows "length (row t r) = ncols t"
proof -
  have len: "length (elems t) = nrows t * ncols t"
    using assms(1,2) by (simp add: wf_tensor_def numel_split)
  from assms(3) have "Suc r \<le> nrows t" by simp
  then have "Suc r * ncols t \<le> nrows t * ncols t" by (rule mult_le_mono1)
  then show ?thesis unfolding row_def using len by (intro length_row_at) simp
qed

lemma elems_rows:
  assumes "wf_tensor t" "shape t \<noteq> []"
  shows "elems t = concat (map (row t) [0..<nrows t])"
proof -
  have "length (elems t) = nrows t * ncols t"
    using assms by (simp add: wf_tensor_def numel_split)
  moreover have "row t = row_at (ncols t) (elems t)" by (rule ext) (simp add: row_def)
  ultimately show ?thesis by (simp add: concat_rows_take)
qed

lemma of_rows_self:
  assumes "wf_tensor t" "shape t \<noteq> []"
  shows "of_rows (shape t) (nrows t) (row t) = t"
  using elems_rows[OF assms] by (simp add: of_rows_def)

lemma tensor_eqI:
  assumes "wf_tensor t" "wf_tensor u" "shape t = shape u" "shape t \<noteq> []"
    and rows: "\<And>r. r < nrows t \<Longrightarrow> row t r = row u r"
  shows "t = u"
proof -
  have n: "nrows u = nrows t" using assms(3) by (simp add: nrows_def)
  have "map (row t) [0..<nrows t] = map (row u) [0..<nrows t]"
    by (rule map_cong) (simp_all add: rows)
  then have "concat (map (row t) [0..<nrows t]) = concat (map (row u) [0..<nrows u])"
    unfolding n by (rule arg_cong)
  then have "elems t = elems u"
    using elems_rows[of t] elems_rows[of u] assms(1-4) by simp
  with assms(3) show ?thesis by simp
qed

lemma shape_of_rows [simp]: "shape (of_rows sh n f) = sh"
  by (simp add: of_rows_def)

lemma of_rows_props:
  assumes len: "\<And>r. r < n \<Longrightarrow> length (f r) = k" and n: "prod_list pre = n"
  shows "wf_tensor (of_rows (pre @ [k]) n f)"
    and "nrows (of_rows (pre @ [k]) n f) = n"
    and "ncols (of_rows (pre @ [k]) n f) = k"
    and "r < n \<Longrightarrow> row (of_rows (pre @ [k]) n f) r = f r"
proof -
  show "wf_tensor (of_rows (pre @ [k]) n f)"
    using n by (simp add: wf_tensor_def numel_def of_rows_def length_concat_rows[OF len])
  show "nrows (of_rows (pre @ [k]) n f) = n"
    using n by (simp add: nrows_def)
  show c: "ncols (of_rows (pre @ [k]) n f) = k"
    by (simp add: ncols_def)
  show "row (of_rows (pre @ [k]) n f) r = f r" if "r < n"
    unfolding row_def c using row_at_concat[OF len that] by (simp add: of_rows_def)
qed

lemma of_rows3:
  assumes len: "\<And>r. r < a * b \<Longrightarrow> length (f r) = k"
  shows "wf_tensor (of_rows [a, b, k] (a * b) f) \<and> shape (of_rows [a, b, k] (a * b) f) = [a, b, k] \<and>
         (\<forall>r<a * b. row (of_rows [a, b, k] (a * b) f) r = f r)"
  using of_rows_props(1)[of "a * b" f k "[a, b]"] of_rows_props(4)[of "a * b" f k "[a, b]"] len
  by simp

lemma rows3:
  assumes "shape t = [a, b, k]"
  shows "nrows t = a * b" "ncols t = k" "shape t \<noteq> []" "butlast (shape t) = [a, b]"
  using assms by (simp_all add: nrows_def ncols_def)

lemma index3_row:
  assumes "shape t = [a, b, k]" "i < a" "j < b"
  shows "index3 t i j = Inr (row t (i * b + j))"
  using assms by (simp add: index3_def row_def ncols_def)

lemma row_index_bound: "i < a \<Longrightarrow> j < b \<Longrightarrow> i * b + j < a * (b::nat)"
proof -
  assume "i < a" "j < b"
  then have "i * b + j < Suc i * b" by simp
  also from \<open>i < a\<close> have "\<dots> \<le> a * b" by (intro mult_le_mono1) simp
  finally show ?thesis .
qed

lemma length_row3:
  assumes "wf_tensor t" "shape t = [a, b, k]" "r < a * b"
  shows "length (row t r) = k"
  using length_row[OF assms(1)] assms(2,3) rows3[OF assms(2)] by simp

lemma slice_last3:
  assumes wf: "wf_tensor t" and sh: "shape t = [a, b, k]"
  shows "\<exists>u. slice_last x y t = Inr u \<and> wf_tensor u \<and> shape u = [a, b, min y k - min x k] \<and>
           (\<forall>r<a * b. row u r = take (y - x) (drop x (row t r)))"
proof -
  let ?f = "\<lambda>r. take (y - x) (drop x (row t r))"
  have len: "length (?f r) = min y k - min x k" if "r < a * b" for r
    using length_row3[OF wf sh that] by auto
  have "slice_last x y t = Inr (of_rows [a, b, min y k - min x k] (a * b) ?f)"
    using rows3[OF sh] by (simp add: slice_last_def sh)
  with of_rows3[of a b ?f, OF len] show ?thesis by blast
qed

lemma convert_quat_wxyz3:
  assumes wf: "wf_tensor q" and sh: "shape q = [a, b, 4]"
  shows "\<exists>u. convert_quat_wxyz q = Inr u \<and> wf_tensor u \<and> shape u = [a, b, 4] \<and>
           (\<forall>r<a * b. row u r = roll1 (row q r))"
proof -
  let ?f = "\<lambda>r. roll1 (row q r)"
  have len: "length (?f r) = 4" if "r < a * b" for r
    using length_row3[OF wf sh that] by (auto simp: roll1_def)
  have "convert_quat_wxyz q = Inr (of_rows [a, b, 4] (a * b) ?f)"
    using rows3[OF sh] by (simp add: convert_quat_wxyz_def sh)
  with of_rows3[of a b ?f, OF len] show ?thesis by blast
qed

lemma set_slice_last3:
  assumes wf: "wf_tensor t" and sh: "shape t = [a, b, k]"
    and wfv: "wf_tensor v" and shv: "shape v = [a, b, min y k - min x k]" and xy: "x \<le> y"
  shows "\<exists>u. set_slice_last x y t v = Inr u \<and> wf_tensor u \<and> shape u = [a, b, k] \<and>
           (\<forall>r<a * b. row u r = take x (row t r) @ row v r @ drop y (row t r))"
proof -
  let ?f = "\<lambda>r. take x (row t r) @ row v r @ drop y (row t r)"
  have len: "length (?f r) = k" if "r < a * b" for r
    using length_row3[OF wf sh that] length_row3[OF wfv shv that] xy by auto
  have "set_slice_last x y t v = Inr (of_rows [a, b, k] (a * b) ?f)"
    using rows3[OF sh] by (simp add: set_slice_last_def sh shv)
  with of_rows3[of a b ?f, OF len] show ?thesis by blast
qed

lemma cat_last3:
  assumes wf: "wf_tensor p" and sh: "shape p = [a, b, k]"
    and wfv: "wf_tensor v" and shv: "shape v = [a, b, m]"
  shows "\<exists>u. cat_last p v = Inr u \<and> wf_tensor u \<and> shape u = [a, b, k + m] \<and>
           (\<forall>r<a * b. row u r = row p r @ row v r)"
proof -
  let ?f = "\<lambda>r. row p r @ row v r"
  have len: "length (?f r) = k + m" if "r < a * b" for r
    using length_row3[OF wf sh that] length_row3[OF wfv shv that] by simp
  have "cat_last p v = Inr (of_rows [a, b, k + m] (a * b) ?f)"
    using rows3[OF sh] rows3[OF shv] by (simp add: cat_last_def sh shv)
  with of_rows3[of a b ?f, OF len] show ?thesis by blast
qed

section \<open>Reading the view\<close>

lemma view_to_data_order3:
  assumes wf: "wf_tensor t" and sh: "shape t = [ni * no, k]"
    and pos: "0 < ni" "0 < no"
    and dims: "num_objects s = int no" "num_instances s = int ni"
  shows "\<exists>u. view_to_data_order s t = Inr u \<and> wf_tensor u \<and> shape u = [ni, no, k] \<and>
           (\<forall>i<ni. \<forall>j<no. row u (i * no + j) = row t (j * ni + i))"
proof -
  let ?u = "\<lparr>shape = [ni, no, k], elems = swapped no ni k (elems t)\<rparr>"
  have len: "length (elems t) = no * ni * k"
    using wf sh by (simp add: wf_tensor_def numel_def ac_simps)
  have eq: "view_to_data_order s t = Inr ?u"
    using assms by (rule view_to_data_order_eq)
  have wfu: "wf_tensor ?u"
    by (simp add: wf_tensor_def numel_def length_swapped len)
  have "row ?u (i * no + j) = row t (j * ni + i)" if "i < ni" "j < no" for i j
    using len that sh by (simp add: row_def ncols_def row_at_swapped)
  with eq wfu show ?thesis by (intro exI[of _ ?u]) simp
qed





lemma compute_object_state3:
  assumes ok: "view_ok v" and c: "count v = int (ni * no)"
    and pos: "0 < ni" "0 < no"
    and dims: "num_objects s = int no" "num_instances s = int ni"
  shows "\<exists>st. compute_object_state s v = ([GetTransforms, GetVelocities], Inr st) \<and>
           wf_tensor st \<and> shape st = [ni, no, 13] \<and>
           (\<forall>i<ni. \<forall>j<no. row st (i * no + j) =
              take 3 (row (transforms v) (j * ni + i)) @
              roll1 (take 4 (drop 3 (row (transforms v) (j * ni + i)))) @
              drop 7 (row (transforms v) (j * ni + i)) @
              row (velocities v) (j * ni + i))"
proof -
  from c have n: "nat (count v) = ni * no" by (simp only: nat_int)
  from ok have tr: "wf_tensor (transforms v)" "shape (transforms v) = [ni * no, 7]"
    and ve: "wf_tensor (velocities v)" "shape (velocities v) = [ni * no, 6]"
    unfolding view_ok_def n by simp_all
  from view_to_data_order3[OF tr pos dims] obtain p0 where
    p0: "view_to_data_order s (transforms v) = Inr p0" "wf_tensor p0" "shape p0 = [ni, no, 7]"
    and p0r: "\<forall>i<ni. \<forall>j<no. row p0 (i * no + j) = row (transforms v) (j * ni + i)"
    by blast
  from slice_last3[OF p0(2,3), of 3 7] obtain xyzw where
    x: "slice_last 3 7 p0 = Inr xyzw" "wf_tensor xyzw" "shape xyzw = [ni, no, 4]"
    and xr: "\<forall>r<ni * no. row xyzw r = take 4 (drop 3 (row p0 r))"
    by auto
  from convert_quat_wxyz3[OF x(2,3)] obtain wxyz where
    w: "convert_quat_wxyz xyzw = Inr wxyz" "wf_tensor wxyz" "shape wxyz = [ni, no, 4]"
    and wr: "\<forall>r<ni * no. row wxyz r = roll1 (row xyzw r)"
    by blast
  have shw: "shape wxyz = [ni, no, min 7 7 - min 3 7]" using w(3) by simp
  from set_slice_last3[OF p0(2,3) w(2) shw] obtain pose where
    p: "set_slice_last 3 7 p0 wxyz = Inr pose" "wf_tensor pose" "shape pose = [ni, no, 7]"
    and pr: "\<forall>r<ni * no. row pose r = take 3 (row p0 r) @ row wxyz r @ drop 7 (row p0 r)"
    by auto
  from view_to_data_order3[OF ve pos dims] obtain vel where
    v: "view_to_data_order s (velocities v) = Inr vel" "wf_tensor vel" "shape vel = [ni, no, 6]"
    and vr: "\<forall>i<ni. \<forall>j<no. row vel (i * no + j) = row (velocities v) (j * ni + i)"
    by blast
  from cat_last3[OF p(2,3) v(2,3)] obtain st where
    st: "cat_last pose vel = Inr st" "wf_tensor st" "shape st = [ni, no, 13]"
    and sr: "\<forall>r<ni * no. row st r = row pose r @ row vel r"
    by auto
  have eq: "compute_object_state s v = ([GetTransforms, GetVelocities], Inr st)"
    by (simp add: compute_object_state_def read_pose_def p0(1) x(1) w(1) p(1) v(1) st(1))
  have rows: "row st (i * no + j) =
              take 3 (row (transforms v) (j * ni + i)) @
              roll1 (take 4 (drop 3 (row (transforms v) (j * ni + i)))) @
              drop 7 (row (transforms v) (j * ni + i)) @
              row (velocities v) (j * ni + i)" if "i < ni" "j < no" for i j
  proof -
    from that have r: "i * no + j < ni * no" by (rule row_index_bound)
    show ?thesis using r that sr pr wr xr p0r vr by simp
  qed
  from eq st(2,3) rows show ?thesis by blast
qed

lemma quat_of_pose_row:
  assumes "length tr = 7"
  shows "take 4 (drop 3 (take 3 tr @ roll1 (take 4 (drop 3 tr)) @ drop 7 tr @ vr)) =
           [tr ! 6, tr ! 3, tr ! 4, tr ! 5]"
proof -
  from assms obtain a b c d e f g where tr: "tr = [a, b, c, d, e, f, g]"
    by (auto simp: length_Suc_conv eval_nat_numeral)
  show ?thesis unfolding tr by (simp add: roll1_def)
qed


lemma view_ok_test_view: "view_ok (test_view n x)"
  by (simp add: view_ok_def test_view_def wf_tensor_def numel_def)




lemma index2_row:
  assumes "shape t = [n, k]" "r < n"
  shows "index2 t r = Inr (row t r)"
  using assms by (simp add: index2_def row_def ncols_def)

lemma length_row2:
  assumes "wf_tensor t" "shape t = [n, k]" "r < n"
  shows "length (row t r) = k"
  using length_row[OF assms(1)] assms(2,3) by (simp add: nrows_def ncols_def)

lemma object_state_w_refresh3:
  assumes ok: "view_ok v" and c: "count v = int (ni * no)"
    and pos: "0 < ni" "0 < no"
    and dims: "num_objects s = int no" "num_instances s = int ni"
    and stale: "stamp_less (timestamp (object_state_w_buf s)) (sim_timestamp s)"
  shows "\<exists>st. object_state_w s v =
             \<lparr>calls = [GetTransforms, GetVelocities], outcome = Inr (Some st),
              after = s\<lparr>object_state_w_buf := \<lparr>data = Some st, timestamp = At (sim_timestamp s)\<rparr>\<rparr>\<rparr> \<and>
           wf_tensor st \<and> shape st = [ni, no, 13] \<and>
           (\<forall>i<ni. \<forall>j<no. row st (i * no + j) =
              take 3 (row (transforms v) (j * ni + i)) @
              roll1 (take 4 (drop 3 (row (transforms v) (j * ni + i)))) @
              drop 7 (row (transforms v) (j * ni + i)) @
              row (velocities v) (j * ni + i))"
proof -
  from compute_object_state3[OF ok c pos dims] obtain st where
    st: "compute_object_state s v = ([GetTransforms, GetVelocities], Inr st)"
      "wf_tensor st" "shape st = [ni, no, 13]"
    and rows: "\<forall>i<ni. \<forall>j<no. row st (i * no + j) =
              take 3 (row (transforms v) (j * ni + i)) @
              roll1 (take 4 (drop 3 (row (transforms v) (j * ni + i)))) @
              drop 7 (row (transforms v) (j * ni + i)) @
              row (velocities v) (j * ni + i)"
    by blast
  have "object_state_w s v =
             \<lparr>calls = [GetTransforms, GetVelocities], outcome = Inr (Some st),
              after = s\<lparr>object_state_w_buf := \<lparr>data = Some st, timestamp = At (sim_timestamp s)\<rparr>\<rparr>\<rparr>"
    using stale by (simp add: object_state_w_def refresh_object_state_def st(1))
  with st(2,3) rows show ?thesis by blast
qed

lemma object_state_w_cached:
  assumes "data (object_state_w_buf s) = d"
    and "\<not> stamp_less (timestamp (object_state_w_buf s)) (sim_timestamp s)"
  shows "object_state_w s v = \<lparr>calls = [], outcome = Inr d, after = s\<rparr>"
  using assms by (simp add: object_state_w_def)

lemma object_state_w_after_refresh:
  "object_state_w (s\<lparr>object_state_w_buf := \<lparr>data = d, timestamp = At (sim_timestamp s)\<rparr>\<rparr>) v =
     \<lparr>calls = [], outcome = Inr d,
      after = s\<lparr>object_state_w_buf := \<lparr>data = d, timestamp = At (sim_timestamp s)\<rparr>\<rparr>\<rparr>"
  by (rule object_state_w_cached) simp_all

text \<open>
  C9. For a view of the physics layout with num_instances * num_objects bodies, a read of
  \<^verbatim>\<open>object_quat_w\<close> that refreshes the state returns, for instance i and object j, the
  components 6, 3, 4, 5 of the pose row j * num_instances + i of the view: the view's
  (x, y, z, w) at the places 3 to 6 becomes (w, x, y, z). The value is the slice 3:7 of the
  state that the read caches, and a further read returns it again from the cache.
\<close>

theorem object_quat_w_wxyz:
  assumes ok: "view_ok v" and c: "count v = int (ni * no)"
    and pos: "0 < ni" "0 < no"
    and dims: "num_objects s = int no" "num_instances s = int ni"
    and stale: "stamp_less (timestamp (object_state_w_buf s)) (sim_timestamp s)"
  shows "\<exists>st q. outcome (object_state_w s v) = Inr (Some st) \<and>
           data (object_state_w_buf (after (object_quat_w s v))) = Some st \<and>
           outcome (object_quat_w s v) = Inr q \<and>
           slice_last 3 7 st = Inr q \<and>
           shape q = [ni, no, 4] \<and>
           object_quat_w (after (object_quat_w s v)) v' =
             \<lparr>calls = [], outcome = Inr q, after = after (object_quat_w s v)\<rparr> \<and>
           (\<forall>i<ni. \<forall>j<no.
              length (row (transforms v) (j * ni + i)) = 7 \<and>
              index2 (transforms v) (j * ni + i) = Inr (row (transforms v) (j * ni + i)) \<and>
              index3 q i j = Inr [row (transforms v) (j * ni + i) ! 6,
                                  row (transforms v) (j * ni + i) ! 3,
                                  row (transforms v) (j * ni + i) ! 4,
                                  row (transforms v) (j * ni + i) ! 5])"
proof -
  from object_state_w_refresh3[OF assms] obtain st where
    r: "object_state_w s v =
             \<lparr>calls = [GetTransforms, GetVelocities], outcome = Inr (Some st),
              after = s\<lparr>object_state_w_buf := \<lparr>data = Some st, timestamp = At (sim_timestamp s)\<rparr>\<rparr>\<rparr>"
    and st: "wf_tensor st" "shape st = [ni, no, 13]"
    and rows: "\<forall>i<ni. \<forall>j<no. row st (i * no + j) =
              take 3 (row (transforms v) (j * ni + i)) @
              roll1 (take 4 (drop 3 (row (transforms v) (j * ni + i)))) @
              drop 7 (row (transforms v) (j * ni + i)) @
              row (velocities v) (j * ni + i)"
    by blast
  from slice_last3[OF st, of 3 7] obtain q where
    q: "slice_last 3 7 st = Inr q" "shape q = [ni, no, 4]"
    and qr: "\<forall>r<ni * no. row q r = take 4 (drop 3 (row st r))"
    by auto
  from c have n: "nat (count v) = ni * no" by (simp only: nat_int)
  from ok have tr: "wf_tensor (transforms v)" "shape (transforms v) = [ni * no, 7]"
    unfolding view_ok_def n by simp_all
  have o: "outcome (object_quat_w s v) = Inr q"
    and a: "after (object_quat_w s v) =
       s\<lparr>object_state_w_buf := \<lparr>data = Some st, timestamp = At (sim_timestamp s)\<rparr>\<rparr>"
    by (simp_all add: object_quat_w_def sliced_def r q(1))
  have again: "object_quat_w (after (object_quat_w s v)) v' =
             \<lparr>calls = [], outcome = Inr q, after = after (object_quat_w s v)\<rparr>"
    unfolding a by (simp add: object_quat_w_def sliced_def object_state_w_after_refresh q(1))
  have comp: "length (row (transforms v) (j * ni + i)) = 7 \<and>
              index2 (transforms v) (j * ni + i) = Inr (row (transforms v) (j * ni + i)) \<and>
              index3 q i j = Inr [row (transforms v) (j * ni + i) ! 6,
                                  row (transforms v) (j * ni + i) ! 3,
                                  row (transforms v) (j * ni + i) ! 4,
                                  row (transforms v) (j * ni + i) ! 5]"
    if ij: "i < ni" "j < no" for i j
  proof -
    from ij have b1: "i * no + j < ni * no" by (rule row_index_bound)
    from ij have "j * ni + i < no * ni" by (intro row_index_bound)
    then have b2: "j * ni + i < ni * no" by (simp add: ac_simps)
    have l: "length (row (transforms v) (j * ni + i)) = 7"
      using tr b2 by (rule length_row2)
    have "row q (i * no + j) = take 4 (drop 3 (row st (i * no + j)))"
      using qr b1 by simp
    also have "\<dots> = [row (transforms v) (j * ni + i) ! 6,
                                  row (transforms v) (j * ni + i) ! 3,
                                  row (transforms v) (j * ni + i) ! 4,
                                  row (transforms v) (j * ni + i) ! 5]"
      using rows ij quat_of_pose_row[OF l] by simp
    finally show ?thesis
      using l index2_row[OF tr(2) b2] index3_row[OF q(2) ij] by simp
  qed
  from r a o q again comp show ?thesis by (intro exI[of _ st] exI[of _ q]) simp
qed

theorem object_quat_w_wxyz_witness:
  "view_ok (test_view 2 0) \<and> count (test_view 2 0) = int (1 * 2) \<and>
   stamp_less (timestamp (object_state_w_buf (test_data 2 2))) (sim_timestamp (test_data 2 2)) \<and>
   index2 (transforms (test_view 2 0)) (1 * 1 + 0) = Inr [7, 8, 9, 10, 11, 12, 13] \<and>
   outcome (object_quat_w (test_data 2 2) (test_view 2 0)) =
     Inr \<lparr>shape = [1, 2, 4], elems = [6, 3, 4, 5, 13, 10, 11, 12]\<rparr> \<and>
   (\<exists>q. outcome (object_quat_w (test_data 2 2) (test_view 2 0)) = Inr q \<and>
        index3 q 0 1 = Inr [13, 10, 11, 12])"
proof -
  have h: "count (test_view 2 0) = int (1 * 2)" "(0::nat) < 1" "(0::nat) < 2"
    "num_objects (test_data 2 2) = int 2" "num_instances (test_data 2 2) = int 1"
    "stamp_less (timestamp (object_state_w_buf (test_data 2 2))) (sim_timestamp (test_data 2 2))"
    by (simp_all add: test_view_def test_data_def TimestampedBuffer_init_def)
  from object_quat_w_wxyz[OF view_ok_test_view h, of "test_view 2 0"] obtain q where
    q: "outcome (object_quat_w (test_data 2 2) (test_view 2 0)) = Inr q"
    and r: "\<forall>i<1. \<forall>j<2. index3 q i j = Inr [row (transforms (test_view 2 0)) (j * 1 + i) ! 6,
                                  row (transforms (test_view 2 0)) (j * 1 + i) ! 3,
                                  row (transforms (test_view 2 0)) (j * 1 + i) ! 4,
                                  row (transforms (test_view 2 0)) (j * 1 + i) ! 5]"
    by blast
  have t: "row (transforms (test_view 2 0)) (1 * 1 + 0) = [7, 8, 9, 10, 11, 12, 13]"
    "index2 (transforms (test_view 2 0)) (1 * 1 + 0) = Inr [7, 8, 9, 10, 11, 12, 13]"
    by code_simp+
  from r have "index3 q 0 1 = Inr [row (transforms (test_view 2 0)) (1 * 1 + 0) ! 6,
                                  row (transforms (test_view 2 0)) (1 * 1 + 0) ! 3,
                                  row (transforms (test_view 2 0)) (1 * 1 + 0) ! 4,
                                  row (transforms (test_view 2 0)) (1 * 1 + 0) ! 5]" by simp
  then have i: "index3 q 0 1 = Inr [13, 10, 11, 12]" unfolding t by simp
  have e: "outcome (object_quat_w (test_data 2 2) (test_view 2 0)) =
     Inr \<lparr>shape = [1, 2, 4], elems = [6, 3, 4, 5, 13, 10, 11, 12]\<rparr>"
    by code_simp
  from view_ok_test_view[of 2 0] h(1,6) t(2) e q i show ?thesis by blast
qed

section \<open>The derived properties\<close>

lemma take_drop_join:
  assumes "x \<le> y" "y \<le> z"
  shows "take (y - x) (drop x r) @ take (z - y) (drop y r) = take (z - x) (drop x r)"
proof -
  have "take ((y - x) + (z - y)) (drop x r) =
          take (y - x) (drop x r) @ take (z - y) (drop (y - x) (drop x r))"
    by (rule take_add)
  moreover have "(y - x) + (z - y) = z - x" "y - x + x = y" using assms by simp_all
  ultimately show ?thesis by simp
qed

lemma slice_join:
  assumes wf: "wf_tensor t" and sh: "shape t = [a, b, k]"
    and xy: "x \<le> y" and yz: "y \<le> z"
    and u: "slice_last x y t = Inr u" and w: "slice_last y z t = Inr w"
  shows "cat_last u w = slice_last x z t"
proof -
  from slice_last3[OF wf sh, of x y] u have
    u': "wf_tensor u" "shape u = [a, b, min y k - min x k]"
    and ur: "\<forall>r<a * b. row u r = take (y - x) (drop x (row t r))" by auto
  from slice_last3[OF wf sh, of y z] w have
    w': "wf_tensor w" "shape w = [a, b, min z k - min y k]"
    and wr: "\<forall>r<a * b. row w r = take (z - y) (drop y (row t r))" by auto
  from slice_last3[OF wf sh, of x z] obtain xz where
    xz: "slice_last x z t = Inr xz" "wf_tensor xz" "shape xz = [a, b, min z k - min x k]"
    and xzr: "\<forall>r<a * b. row xz r = take (z - x) (drop x (row t r))" by blast
  from cat_last3[OF u' w'] obtain c where
    c: "cat_last u w = Inr c" "wf_tensor c"
      "shape c = [a, b, (min y k - min x k) + (min z k - min y k)]"
    and cr: "\<forall>r<a * b. row c r = row u r @ row w r" by blast
  have e: "(min y k - min x k) + (min z k - min y k) = min z k - min x k"
    using xy yz by simp
  have "c = xz"
  proof (rule tensor_eqI)
    show "wf_tensor c" "wf_tensor xz" by (rule c(2), rule xz(2))
    show "shape c = shape xz" using c(3) xz(3) e by simp
    show "shape c \<noteq> []" using c(3) by simp
    show "row c r = row xz r" if "r < nrows c" for r
    proof -
      from that have "r < a * b" using c(3) by (simp add: nrows_def)
      then show ?thesis using cr ur wr xzr take_drop_join[OF xy yz] by simp
    qed
  qed
  with c(1) xz(1) show ?thesis by simp
qed

lemma slice_whole:
  assumes wf: "wf_tensor t" and sh: "shape t = [a, b, k]" and z: "k \<le> z"
  shows "slice_last 0 z t = Inr t"
proof -
  from slice_last3[OF wf sh, of 0 z] obtain u where
    u: "slice_last 0 z t = Inr u" "wf_tensor u" "shape u = [a, b, min z k - min 0 k]"
    and ur: "\<forall>r<a * b. row u r = take (z - 0) (drop 0 (row t r))" by blast
  have "u = t"
  proof (rule tensor_eqI)
    show "wf_tensor u" "wf_tensor t" by (rule u(2), rule wf)
    show "shape u = shape t" using u(3) sh z by simp
    show "shape u \<noteq> []" using u(3) by simp
    show "row u r = row t r" if "r < nrows u" for r
    proof -
      from that have r: "r < a * b" using u(3) by (simp add: nrows_def)
      with length_row3[OF wf sh r] ur z show ?thesis by simp
    qed
  qed
  with u(1) show ?thesis by simp
qed

lemma state_slices:
  assumes wf: "wf_tensor st" and sh: "shape st = [a, b, 13]"
  shows "\<exists>p q l w vel. slice_last 0 3 st = Inr p \<and> slice_last 3 7 st = Inr q \<and>
           slice_last 7 10 st = Inr l \<and> slice_last 10 13 st = Inr w \<and>
           slice_last 7 13 st = Inr vel \<and>
           concat_last [p, q, l, w] = Inr st \<and> cat_last l w = Inr vel"
proof -
  from slice_last3[OF wf sh, of 0 3] obtain p where p: "slice_last 0 3 st = Inr p" by blast
  from slice_last3[OF wf sh, of 3 7] obtain q where q: "slice_last 3 7 st = Inr q" by blast
  from slice_last3[OF wf sh, of 7 10] obtain l where l: "slice_last 7 10 st = Inr l" by blast
  from slice_last3[OF wf sh, of 10 13] obtain w where w: "slice_last 10 13 st = Inr w" by blast
  from slice_last3[OF wf sh, of 7 13] obtain vel where vel: "slice_last 7 13 st = Inr vel" by blast
  from slice_last3[OF wf sh, of 0 7] obtain pq where pq: "slice_last 0 7 st = Inr pq" by blast
  from slice_last3[OF wf sh, of 0 10] obtain pql where pql: "slice_last 0 10 st = Inr pql" by blast
  have 1: "cat_last p q = Inr pq"
    using slice_join[OF wf sh _ _ p q] pq by simp
  have 2: "cat_last pq l = Inr pql"
    using slice_join[OF wf sh _ _ pq l] pql by simp
  have 3: "cat_last pql w = Inr st"
    using slice_join[OF wf sh _ _ pql w] slice_whole[OF wf sh, of 13] by simp
  have 4: "cat_last l w = Inr vel"
    using slice_join[OF wf sh _ _ l w] vel by simp
  from p q l w vel 1 2 3 4 show ?thesis by simp
qed

lemma acc_slices:
  assumes wf: "wf_tensor ac" and sh: "shape ac = [a, b, 6]"
  shows "\<exists>l w. slice_last 0 3 ac = Inr l \<and> slice_last 3 6 ac = Inr w \<and> cat_last l w = Inr ac"
proof -
  from slice_last3[OF wf sh, of 0 3] obtain l where l: "slice_last 0 3 ac = Inr l" by blast
  from slice_last3[OF wf sh, of 3 6] obtain w where w: "slice_last 3 6 ac = Inr w" by blast
  have "cat_last l w = Inr ac"
    using slice_join[OF wf sh _ _ l w] slice_whole[OF wf sh, of 6] by simp
  with l w show ?thesis by blast
qed

lemma after_read_state_prop: "after (read_state_prop p s v) = after (object_state_w s v)"
  by (cases p)
    (simp_all add: object_pos_w_def object_quat_w_def object_vel_w_def object_lin_vel_w_def
      object_ang_vel_w_def sliced_def)

lemma calls_read_state_prop: "calls (read_state_prop p s v) = calls (object_state_w s v)"
  by (cases p)
    (simp_all add: object_pos_w_def object_quat_w_def object_vel_w_def object_lin_vel_w_def
      object_ang_vel_w_def sliced_def)

lemma fresh_state_refreshes:
  assumes "\<not> stamp_less (timestamp (object_state_w_buf s)) (sim_timestamp s)"
  shows "state_refreshes s pvs = 0"
proof (induction pvs)
  case Nil
  show ?case by simp
next
  case (Cons pv pvs)
  obtain p v where pv: "pv = (p, v)" by (cases pv)
  have "after (read_state_prop p s v) = s"
    using assms by (simp add: after_read_state_prop object_state_w_def)
  with Cons show ?case by (simp add: pv)
qed

lemma state_refreshes_le_1: "state_refreshes s pvs \<le> 1"
proof (induction pvs arbitrary: s)
  case Nil
  show ?case by simp
next
  case (Cons pv pvs)
  obtain p v where pv: "pv = (p, v)" by (cases pv)
  let ?s' = "after (read_state_prop p s v)"
  show ?case
  proof (cases "object_state_w_buf ?s' = object_state_w_buf s")
    case True
    then show ?thesis using Cons[of ?s'] by (simp add: pv)
  next
    case False
    then have "\<not> stamp_less (timestamp (object_state_w_buf ?s')) (sim_timestamp ?s')"
      by (auto simp: after_read_state_prop after_object_state_w split: if_splits sum.splits)
    then have "state_refreshes ?s' pvs = 0" by (rule fresh_state_refreshes)
    then show ?thesis by (simp add: pv)
  qed
qed

lemma object_acc_w_refresh3:
  assumes ok: "view_ok v" and c: "count v = int (ni * no)"
    and pos: "0 < ni" "0 < no"
    and dims: "num_objects s = int no" "num_instances s = int ni"
    and stale: "stamp_less (timestamp (object_acc_w_buf s)) (sim_timestamp s)"
  shows "\<exists>ac. object_acc_w s v =
             \<lparr>calls = [GetAccelerations], outcome = Inr (Some ac),
              after = s\<lparr>object_acc_w_buf := \<lparr>data = Some ac, timestamp = At (sim_timestamp s)\<rparr>\<rparr>\<rparr> \<and>
           wf_tensor ac \<and> shape ac = [ni, no, 6] \<and>
           (\<forall>i<ni. \<forall>j<no. row ac (i * no + j) = row (accelerations v) (j * ni + i))"
proof -
  from c have n: "nat (count v) = ni * no" by (simp only: nat_int)
  from ok have a: "wf_tensor (accelerations v)" "shape (accelerations v) = [ni * no, 6]"
    unfolding view_ok_def n by simp_all
  from view_to_data_order3[OF a pos dims] obtain ac where
    ac: "view_to_data_order s (accelerations v) = Inr ac" "wf_tensor ac" "shape ac = [ni, no, 6]"
    and r: "\<forall>i<ni. \<forall>j<no. row ac (i * no + j) = row (accelerations v) (j * ni + i)"
    by blast
  have "object_acc_w s v =
             \<lparr>calls = [GetAccelerations], outcome = Inr (Some ac),
              after = s\<lparr>object_acc_w_buf := \<lparr>data = Some ac, timestamp = At (sim_timestamp s)\<rparr>\<rparr>\<rparr>"
    using stale by (simp add: object_acc_w_def refresh_object_acc_def compute_object_acc_def ac(1))
  with ac(2,3) r show ?thesis by blast
qed

lemma object_acc_w_after_refresh:
  "object_acc_w (s\<lparr>object_acc_w_buf := \<lparr>data = d, timestamp = At (sim_timestamp s)\<rparr>\<rparr>) v =
     \<lparr>calls = [], outcome = Inr d,
      after = s\<lparr>object_acc_w_buf := \<lparr>data = d, timestamp = At (sim_timestamp s)\<rparr>\<rparr>\<rparr>"
  by (simp add: object_acc_w_def)

text \<open>
  C10 (amended). The properties \<^verbatim>\<open>object_pos_w\<close>, \<^verbatim>\<open>object_quat_w\<close>,
  \<^verbatim>\<open>object_vel_w\<close>, \<^verbatim>\<open>object_lin_vel_w\<close> and \<^verbatim>\<open>object_ang_vel_w\<close> are slices of the
  one cached state: any sequence of their reads with no update in between writes the state
  cache at most once. For a view of the physics layout with num_instances * num_objects
  bodies, the first read of a stale state refreshes it, every later read is served from the
  cache, position, orientation, linear and angular velocity concatenated along the last axis
  are the state, and linear and angular velocity concatenated are \<^verbatim>\<open>object_vel_w\<close>;
  likewise \<^verbatim>\<open>object_lin_acc_w\<close> and \<^verbatim>\<open>object_ang_acc_w\<close> concatenated are
  \<^verbatim>\<open>object_acc_w\<close>.
\<close>

theorem derived_properties_share_state:
  assumes ok: "view_ok v" and c: "count v = int (ni * no)"
    and pos: "0 < ni" "0 < no"
    and dims: "num_objects s = int no" "num_instances s = int ni"
  shows "state_refreshes s pvs \<le> 1 \<and>
    (stamp_less (timestamp (object_state_w_buf s)) (sim_timestamp s) \<longrightarrow>
      (\<exists>st p q l w vel.
         outcome (object_state_w s v) = Inr (Some st) \<and>
         outcome (object_pos_w s v) = Inr p \<and>
         outcome (object_quat_w s v) = Inr q \<and>
         outcome (object_lin_vel_w s v) = Inr l \<and>
         outcome (object_ang_vel_w s v) = Inr w \<and>
         outcome (object_vel_w s v) = Inr vel \<and>
         concat_last [p, q, l, w] = Inr st \<and> cat_last l w = Inr vel \<and>
         (\<forall>x. after (read_state_prop x s v) = after (object_state_w s v) \<and>
              calls (read_state_prop x s v) = [GetTransforms, GetVelocities]) \<and>
         (\<forall>x. read_state_prop x (after (object_state_w s v)) v' =
              \<lparr>calls = [], outcome = outcome (read_state_prop x s v),
               after = after (object_state_w s v)\<rparr>) \<and>
         object_state_w (after (object_state_w s v)) v' =
           \<lparr>calls = [], outcome = Inr (Some st), after = after (object_state_w s v)\<rparr>)) \<and>
    (stamp_less (timestamp (object_acc_w_buf s)) (sim_timestamp s) \<longrightarrow>
      (\<exists>ac l w.
         outcome (object_acc_w s v) = Inr (Some ac) \<and>
         outcome (object_lin_acc_w s v) = Inr l \<and>
         outcome (object_ang_acc_w s v) = Inr w \<and>
         cat_last l w = Inr ac \<and>
         calls (object_lin_acc_w s v) = [GetAccelerations] \<and>
         object_lin_acc_w (after (object_lin_acc_w s v)) v' =
           \<lparr>calls = [], outcome = Inr l, after = after (object_acc_w s v)\<rparr> \<and>
         object_ang_acc_w (after (object_lin_acc_w s v)) v' =
           \<lparr>calls = [], outcome = Inr w, after = after (object_acc_w s v)\<rparr>))"
proof -
  have state: "\<exists>st p q l w vel.
         outcome (object_state_w s v) = Inr (Some st) \<and>
         outcome (object_pos_w s v) = Inr p \<and>
         outcome (object_quat_w s v) = Inr q \<and>
         outcome (object_lin_vel_w s v) = Inr l \<and>
         outcome (object_ang_vel_w s v) = Inr w \<and>
         outcome (object_vel_w s v) = Inr vel \<and>
         concat_last [p, q, l, w] = Inr st \<and> cat_last l w = Inr vel \<and>
         (\<forall>x. after (read_state_prop x s v) = after (object_state_w s v) \<and>
              calls (read_state_prop x s v) = [GetTransforms, GetVelocities]) \<and>
         (\<forall>x. read_state_prop x (after (object_state_w s v)) v' =
              \<lparr>calls = [], outcome = outcome (read_state_prop x s v),
               after = after (object_state_w s v)\<rparr>) \<and>
         object_state_w (after (object_state_w s v)) v' =
           \<lparr>calls = [], outcome = Inr (Some st), after = after (object_state_w s v)\<rparr>"
    if stale: "stamp_less (timestamp (object_state_w_buf s)) (sim_timestamp s)"
  proof -
    from object_state_w_refresh3[OF ok c pos dims stale] obtain st where
      r: "object_state_w s v =
             \<lparr>calls = [GetTransforms, GetVelocities], outcome = Inr (Some st),
              after = s\<lparr>object_state_w_buf := \<lparr>data = Some st, timestamp = At (sim_timestamp s)\<rparr>\<rparr>\<rparr>"
      and st: "wf_tensor st" "shape st = [ni, no, 13]"
      by blast
    from state_slices[OF st] obtain p q l w vel where
      sl: "slice_last 0 3 st = Inr p" "slice_last 3 7 st = Inr q"
        "slice_last 7 10 st = Inr l" "slice_last 10 13 st = Inr w" "slice_last 7 13 st = Inr vel"
      and cat: "concat_last [p, q, l, w] = Inr st" "cat_last l w = Inr vel"
      by blast
    have first: "outcome (object_pos_w s v) = Inr p" "outcome (object_quat_w s v) = Inr q"
      "outcome (object_lin_vel_w s v) = Inr l" "outcome (object_ang_vel_w s v) = Inr w"
      "outcome (object_vel_w s v) = Inr vel"
      by (simp_all add: object_pos_w_def object_quat_w_def object_vel_w_def
          object_lin_vel_w_def object_ang_vel_w_def sliced_def r sl)
    have a: "after (read_state_prop x s v) = after (object_state_w s v) \<and>
              calls (read_state_prop x s v) = [GetTransforms, GetVelocities]" for x
      by (simp add: after_read_state_prop calls_read_state_prop r)
    have again: "object_state_w (after (object_state_w s v)) v' =
           \<lparr>calls = [], outcome = Inr (Some st), after = after (object_state_w s v)\<rparr>"
      by (simp add: r object_state_w_after_refresh)
    have b: "read_state_prop x (after (object_state_w s v)) v' =
              \<lparr>calls = [], outcome = outcome (read_state_prop x s v),
               after = after (object_state_w s v)\<rparr>" for x
      by (cases x)
        (simp_all add: object_pos_w_def object_quat_w_def object_vel_w_def
          object_lin_vel_w_def object_ang_vel_w_def sliced_def again, simp_all add: r)
    from r first cat a b again show ?thesis by auto
  qed
  have acc: "\<exists>ac l w.
         outcome (object_acc_w s v) = Inr (Some ac) \<and>
         outcome (object_lin_acc_w s v) = Inr l \<and>
         outcome (object_ang_acc_w s v) = Inr w \<and>
         cat_last l w = Inr ac \<and>
         calls (object_lin_acc_w s v) = [GetAccelerations] \<and>
         object_lin_acc_w (after (object_lin_acc_w s v)) v' =
           \<lparr>calls = [], outcome = Inr l, after = after (object_acc_w s v)\<rparr> \<and>
         object_ang_acc_w (after (object_lin_acc_w s v)) v' =
           \<lparr>calls = [], outcome = Inr w, after = after (object_acc_w s v)\<rparr>"
    if stale: "stamp_less (timestamp (object_acc_w_buf s)) (sim_timestamp s)"
  proof -
    from object_acc_w_refresh3[OF ok c pos dims stale] obtain ac where
      r: "object_acc_w s v =
             \<lparr>calls = [GetAccelerations], outcome = Inr (Some ac),
              after = s\<lparr>object_acc_w_buf := \<lparr>data = Some ac, timestamp = At (sim_timestamp s)\<rparr>\<rparr>\<rparr>"
      and ac: "wf_tensor ac" "shape ac = [ni, no, 6]"
      by blast
    from acc_slices[OF ac] obtain l w where
      sl: "slice_last 0 3 ac = Inr l" "slice_last 3 6 ac = Inr w" and cat: "cat_last l w = Inr ac"
      by blast
    have first: "outcome (object_lin_acc_w s v) = Inr l" "outcome (object_ang_acc_w s v) = Inr w"
      "calls (object_lin_acc_w s v) = [GetAccelerations]"
      "after (object_lin_acc_w s v) = after (object_acc_w s v)"
      by (simp_all add: object_lin_acc_w_def object_ang_acc_w_def sliced_def r sl)
    have again: "object_lin_acc_w (after (object_lin_acc_w s v)) v' =
           \<lparr>calls = [], outcome = Inr l, after = after (object_acc_w s v)\<rparr>"
      "object_ang_acc_w (after (object_lin_acc_w s v)) v' =
           \<lparr>calls = [], outcome = Inr w, after = after (object_acc_w s v)\<rparr>"
      unfolding first(4)
      by (simp_all add: object_lin_acc_w_def object_ang_acc_w_def sliced_def r
          object_acc_w_after_refresh sl)
    from r first cat again show ?thesis by auto
  qed
  from state acc state_refreshes_le_1[of s pvs] show ?thesis by blast
qed

theorem derived_properties_share_state_witness:
  "view_ok (test_view 2 0) \<and> count (test_view 2 0) = int (1 * 2) \<and>
   stamp_less (timestamp (object_state_w_buf (test_data 2 2))) (sim_timestamp (test_data 2 2)) \<and>
   stamp_less (timestamp (object_acc_w_buf (test_data 2 2))) (sim_timestamp (test_data 2 2)) \<and>
   state_refreshes (test_data 2 2)
     [(ObjectPosW, test_view 2 0), (ObjectVelW, test_view 2 5), (ObjectQuatW, test_view 2 9)] \<le> 1 \<and>
   (\<exists>st p q l w.
      outcome (object_state_w (test_data 2 2) (test_view 2 0)) = Inr (Some st) \<and>
      outcome (object_pos_w (test_data 2 2) (test_view 2 0)) = Inr p \<and>
      outcome (object_quat_w (test_data 2 2) (test_view 2 0)) = Inr q \<and>
      outcome (object_lin_vel_w (test_data 2 2) (test_view 2 0)) = Inr l \<and>
      outcome (object_ang_vel_w (test_data 2 2) (test_view 2 0)) = Inr w \<and>
      concat_last [p, q, l, w] = Inr st) \<and>
   (\<exists>ac l w.
      outcome (object_acc_w (test_data 2 2) (test_view 2 0)) = Inr (Some ac) \<and>
      outcome (object_lin_acc_w (test_data 2 2) (test_view 2 0)) = Inr l \<and>
      outcome (object_ang_acc_w (test_data 2 2) (test_view 2 0)) = Inr w \<and>
      cat_last l w = Inr ac)"
proof -
  have h: "count (test_view 2 0) = int (1 * 2)" "(0::nat) < 1" "(0::nat) < 2"
    "num_objects (test_data 2 2) = int 2" "num_instances (test_data 2 2) = int 1"
    by (simp_all add: test_view_def test_data_def)
  have stale:
    "stamp_less (timestamp (object_state_w_buf (test_data 2 2))) (sim_timestamp (test_data 2 2))"
    "stamp_less (timestamp (object_acc_w_buf (test_data 2 2))) (sim_timestamp (test_data 2 2))"
    by (simp_all add: test_data_def TimestampedBuffer_init_def)
  note th = derived_properties_share_state[OF view_ok_test_view h,
      of "[(ObjectPosW, test_view 2 0), (ObjectVelW, test_view 2 5), (ObjectQuatW, test_view 2 9)]"
        "test_view 2 5"]
  from th have 1: "state_refreshes (test_data 2 2)
     [(ObjectPosW, test_view 2 0), (ObjectVelW, test_view 2 5), (ObjectQuatW, test_view 2 9)] \<le> 1"
    by (rule conjunct1)
  from th stale(1) have 2: "\<exists>st p q l w.
      outcome (object_state_w (test_data 2 2) (test_view 2 0)) = Inr (Some st) \<and>
      outcome (object_pos_w (test_data 2 2) (test_view 2 0)) = Inr p \<and>
      outcome (object_quat_w (test_data 2 2) (test_view 2 0)) = Inr q \<and>
      outcome (object_lin_vel_w (test_data 2 2) (test_view 2 0)) = Inr l \<and>
      outcome (object_ang_vel_w (test_data 2 2) (test_view 2 0)) = Inr w \<and>
      concat_last [p, q, l, w] = Inr st"
    by blast
  from th stale(2) have 3: "\<exists>ac l w.
      outcome (object_acc_w (test_data 2 2) (test_view 2 0)) = Inr (Some ac) \<and>
      outcome (object_lin_acc_w (test_data 2 2) (test_view 2 0)) = Inr l \<and>
      outcome (object_ang_acc_w (test_data 2 2) (test_view 2 0)) = Inr w \<and>
      cat_last l w = Inr ac"
    by blast
  from view_ok_test_view[of 2 0] h(1) stale 1 2 3 show ?thesis by blast
qed

text \<open>
  For the view of 7 bodies and 3 objects the cached acceleration has 7 components for each
  instance and object; the linear and the angular acceleration hold 6 of them, so they do
  not make up \<^verbatim>\<open>object_acc_w\<close>.
\<close>

theorem acc_slices_miss_a_column:
  "RigidObjectCollectionData_init (test_view 7 0) 3 = Inr (test_data 7 3) \<and>
   view_ok (test_view 7 0) \<and>
   map_sum id (map_option shape) (outcome (object_acc_w (test_data 7 3) (test_view 7 0))) =
     Inr (Some [2, 3, 7]) \<and>
   map_sum id shape
     (case outcome (object_lin_acc_w (test_data 7 3) (test_view 7 0)) of
        Inl e \<Rightarrow> Inl e
      | Inr l \<Rightarrow>
          (case outcome (object_ang_acc_w (test_data 7 3) (test_view 7 0)) of
             Inl e \<Rightarrow> Inl e
           | Inr w \<Rightarrow> cat_last l w)) = Inr [2, 3, 6]"
proof -
  have "RigidObjectCollectionData_init (test_view 7 0) 3 = Inr (test_data 7 3)"
    by (simp add: RigidObjectCollectionData_init_def test_view_def test_data_def)
  moreover have "map_sum id (map_option shape)
      (outcome (object_acc_w (test_data 7 3) (test_view 7 0))) = Inr (Some [2, 3, 7])"
    by code_simp
  moreover have "map_sum id shape
     (case outcome (object_lin_acc_w (test_data 7 3) (test_view 7 0)) of
        Inl e \<Rightarrow> Inl e
      | Inr l \<Rightarrow>
          (case outcome (object_ang_acc_w (test_data 7 3) (test_view 7 0)) of
             Inl e \<Rightarrow> Inl e
           | Inr w \<Rightarrow> cat_last l w)) = Inr [2, 3, 6]"
    by code_simp
  ultimately show ?thesis using view_ok_test_view[of 7 0] by blast
qed

end
